theory Spec2Isabelle
  imports Main "HOL-Library.Sublist" "HOL-Library.Code_Target_Nat"
begin

section \<open>A shallow embedding of the Hack assembler (Assembler.cpp)\<close>

text \<open>
  The program reads an assembly file twice. Pass 1 binds labels to ROM addresses, pass 2
  allocates variables and writes one 16-character line per instruction. Every class of the
  source is a record here, every method a function that takes the object first and returns
  the changed object where the method mutates it.
\<close>

subsection \<open>The pieces of the C++ library the program uses\<close>

text \<open>
  \<open>std::string::npos\<close> is the largest \<open>size_t\<close>, taken here with 64 bits. Positions
  and counts are natural numbers below \<open>2 ^ 64\<close>; the one subtraction the source does on
  them wraps around, and the wrap-around is written out in \<open>size_t_sub\<close>.
\<close>

definition npos :: nat where
  "npos = 2 ^ 64 - 1"

definition size_t_sub :: "nat \<Rightarrow> nat \<Rightarrow> nat" where
  "size_t_sub a b = (a + 2 ^ 64 - b) mod 2 ^ 64"

text \<open>\<open>s.find(c)\<close>: the index of the first \<open>c\<close>, or \<open>npos\<close>.\<close>

definition find_char :: "string \<Rightarrow> char \<Rightarrow> nat" where
  "find_char s c = (if c \<in> set s then length (takeWhile (\<lambda>x. x \<noteq> c) s) else npos)"

text \<open>\<open>s.find(pat)\<close> for a string pattern: the index of its first occurrence, or \<open>npos\<close>.\<close>

fun find_str_from :: "string \<Rightarrow> string \<Rightarrow> nat \<Rightarrow> nat" where
  "find_str_from [] pat i = (if pat = [] then i else npos)"
| "find_str_from (c # cs) pat i =
     (if prefix pat (c # cs) then i else find_str_from cs pat (Suc i))"

definition find_str :: "string \<Rightarrow> string \<Rightarrow> nat" where
  "find_str s pat = find_str_from s pat 0"

text \<open>
  \<open>s.substr(pos, n)\<close>: at most \<open>n\<close> characters from index \<open>pos\<close>. The library throws when
  \<open>pos > s.size()\<close>; every call of the program has \<open>pos \<le> s.size()\<close> (the position is
  0, or one past the index of a character that was found). \<open>s.substr(pos)\<close> is
  \<open>s.substr(pos, npos)\<close>.
\<close>

definition substr :: "string \<Rightarrow> nat \<Rightarrow> nat \<Rightarrow> string" where
  "substr s pos n = take n (drop pos s)"

text \<open>\<open>s[0]\<close>: the first character; on the empty string, the terminating null character.\<close>

definition front :: "string \<Rightarrow> char" where
  "front s = (case s of [] \<Rightarrow> CHR 0x00 | c # _ \<Rightarrow> c)"

text \<open>\<open>isspace\<close> and \<open>isdigit\<close> of the C locale.\<close>

definition isspace :: "char \<Rightarrow> bool" where
  "isspace c = (c \<in> set [CHR 0x20, CHR 0x09, CHR 0x0A, CHR 0x0B, CHR 0x0C, CHR 0x0D])"

definition isdigit :: "char \<Rightarrow> bool" where
  "isdigit c = (c \<in> set ''0123456789'')"

text \<open>\<open>std::to_string\<close> on a non-negative integer: its decimal digits.\<close>

fun to_string :: "nat \<Rightarrow> string" where
  "to_string n =
     (if n < 10 then [''0123456789'' ! n]
      else to_string (n div 10) @ [''0123456789'' ! (n mod 10)])"

declare to_string.simps [simp del]

text \<open>
  \<open>std::stoi\<close> on a string that starts with a digit (the only way the program calls it):
  the value of the leading run of digits, and the exception \<open>std::out_of_range\<close> when that
  value does not fit a 32-bit \<open>int\<close>. Nothing catches the exception, so it ends the run.
\<close>

datatype error = Out_of_range

definition digit_value :: "char \<Rightarrow> int" where
  "digit_value c = int (length (takeWhile (\<lambda>d. d \<noteq> c) ''0123456789''))"

definition stoi :: "string \<Rightarrow> error + int" where
  "stoi s =
     (let v = fold (\<lambda>c n. 10 * n + digit_value c) (takeWhile isdigit s) 0
      in if v \<le> 2147483647 then Inr v else Inl Out_of_range)"

text \<open>
  \<open>std::bitset<N>(v).to_string()\<close>: the \<open>N\<close> low bits of \<open>v\<close>, most significant first.
\<close>

definition bitset_to_string :: "nat \<Rightarrow> int \<Rightarrow> string" where
  "bitset_to_string n v = map (\<lambda>i. if bit v i then CHR ''1'' else CHR ''0'') (rev [0..<n])"

text \<open>
  \<open>m[k]\<close> on a \<open>std::unordered_map\<close>: the value bound to \<open>k\<close>; when there is none, the
  map first binds \<open>k\<close> to a value-initialised value (\<open>0\<close>, the empty string), so a read
  changes the map.
\<close>

definition subscript :: "('k \<rightharpoonup> 'v) \<Rightarrow> 'k \<Rightarrow> 'v \<Rightarrow> 'v \<times> ('k \<rightharpoonup> 'v)" where
  "subscript m k dflt = (case m k of Some v \<Rightarrow> (v, m) | None \<Rightarrow> (dflt, m(k \<mapsto> dflt)))"

text \<open>
  An input stream that was opened with success: the characters not yet read and the
  end-of-file flag. \<open>std::getline\<close> reads up to the next line feed and drops it; when no
  line feed is left it delivers the rest (possibly nothing) and sets the flag.
\<close>

record ifstream =
  unread :: string
  eofbit :: bool

definition ifstream_open :: "string \<Rightarrow> ifstream" where
  "ifstream_open txt = \<lparr>unread = txt, eofbit = False\<rparr>"

definition getline :: "ifstream \<Rightarrow> string \<times> ifstream" where
  "getline f =
     (let l = takeWhile (\<lambda>c. c \<noteq> CHR 0x0A) (unread f)
      in case dropWhile (\<lambda>c. c \<noteq> CHR 0x0A) (unread f) of
           [] \<Rightarrow> (l, f\<lparr>unread := [], eofbit := True\<rparr>)
         | _ # r \<Rightarrow> (l, f\<lparr>unread := r\<rparr>))"

subsection \<open>Constants and the command type\<close>

definition ADDRESS_LEN :: nat where
  "ADDRESS_LEN = 15"

definition VAR_ADDRESS :: int where
  "VAR_ADDRESS = 16"

datatype CommandType = A_COMMAND | C_COMMAND | L_COMMAND | INVALID_COMMAND

subsection \<open>class SymbolTable\<close>

text \<open>
  The addresses are C++ \<open>int\<close>s. They are modelled as unbounded integers: the only
  arithmetic on them is the increment of the counter once per new variable, which cannot
  reach \<open>2 ^ 31\<close> on a source of fewer than \<open>2 ^ 31\<close> lines.
\<close>

record SymbolTable =
  table :: "string \<rightharpoonup> int"
  nextVariableAddress :: int

definition SymbolTable_new :: SymbolTable where
  "SymbolTable_new =
     (let t0 = Map.empty(''SP'' \<mapsto> 0, ''LCL'' \<mapsto> 1, ''ARG'' \<mapsto> 2, ''THIS'' \<mapsto> 3, ''THAT'' \<mapsto> 4);
          t1 = fold (\<lambda>i t. t(''R'' @ to_string i \<mapsto> int i)) [0..<16] t0;
          t2 = t1(''SCREEN'' \<mapsto> 16384, ''KBD'' \<mapsto> 24576)
      in \<lparr>table = t2, nextVariableAddress = VAR_ADDRESS\<rparr>)"

definition contains :: "SymbolTable \<Rightarrow> string \<Rightarrow> bool" where
  "contains st s = (table st s \<noteq> None)"

definition getAddress :: "SymbolTable \<Rightarrow> string \<Rightarrow> int \<times> SymbolTable" where
  "getAddress st s = (let (v, t) = subscript (table st) s 0 in (v, st\<lparr>table := t\<rparr>))"

definition addEntry :: "SymbolTable \<Rightarrow> string \<Rightarrow> int \<Rightarrow> SymbolTable" where
  "addEntry st s address = st\<lparr>table := (table st)(s \<mapsto> address)\<rparr>"

definition addVariable :: "SymbolTable \<Rightarrow> string \<Rightarrow> int \<times> SymbolTable" where
  "addVariable st s =
     (let st1 = (if \<not> contains st s
                 then st\<lparr>table := (table st)(s \<mapsto> nextVariableAddress st),
                         nextVariableAddress := nextVariableAddress st + 1\<rparr>
                 else st);
          (v, t) = subscript (table st1) s 0
      in (v, st1\<lparr>table := t\<rparr>))"

subsection \<open>class Parser\<close>

text \<open>
  The member \<open>commandType\<close> has no initialiser: until the first \<open>parseCommand\<close> its value is
  whatever the memory holds. The constructor of the model takes that value as its first
  argument, so that every statement about a run holds for each value it may have. The string
  members start empty. The members \<open>file\<close> and \<open>comp\<close> are \<open>file_stream\<close> and
  \<open>comp_field\<close> here, the source's names being taken in Isabelle.
\<close>

record Parser =
  file_stream :: ifstream
  currentCommand :: string
  commandType :: CommandType
  symbol :: string
  dest :: string
  comp_field :: string
  jump :: string

definition Parser_new :: "CommandType \<Rightarrow> string \<Rightarrow> Parser" where
  "Parser_new ct txt =
     \<lparr>file_stream = ifstream_open txt, currentCommand = [], commandType = ct,
      symbol = [], dest = [], comp_field = [], jump = []\<rparr>"

definition hasMoreCommands :: "Parser \<Rightarrow> bool" where
  "hasMoreCommands p = (\<not> eofbit (file_stream p))"

definition parseCCommand :: "Parser \<Rightarrow> Parser" where
  "parseCCommand p =
     (let cc = currentCommand p;
          eqPos = find_char cc CHR ''='';
          semiPos = find_char cc CHR '';'';
          p1 = (if eqPos \<noteq> npos
                then p\<lparr>dest := substr cc 0 eqPos,
                       comp_field := substr cc (eqPos + 1) (size_t_sub (size_t_sub semiPos eqPos) 1)\<rparr>
                else p\<lparr>dest := [], comp_field := substr cc 0 semiPos\<rparr>)
      in if semiPos \<noteq> npos
         then p1\<lparr>jump := substr cc (semiPos + 1) npos\<rparr>
         else p1\<lparr>jump := []\<rparr>)"

text \<open>
  In the label branch of \<open>parseCommand\<close> the line starts with \<open>(\<close> and ends with
  \<open>)\<close>, so it has at least two characters and \<open>size() - 2\<close> does not wrap.
\<close>

definition parseCommand :: "Parser \<Rightarrow> Parser" where
  "parseCommand p =
     (let cc = currentCommand p
      in if front cc = CHR ''@''
         then p\<lparr>commandType := A_COMMAND, symbol := substr cc 1 npos\<rparr>
         else if front cc = CHR ''('' \<and> last cc = CHR '')''
         then p\<lparr>commandType := L_COMMAND, symbol := substr cc 1 (length cc - 2)\<rparr>
         else if find_char cc CHR ''='' \<noteq> npos \<or> find_char cc CHR '';'' \<noteq> npos
         then parseCCommand (p\<lparr>commandType := C_COMMAND\<rparr>)
         else p\<lparr>commandType := INVALID_COMMAND\<rparr>)"

definition advance :: "Parser \<Rightarrow> Parser" where
  "advance p =
     (if hasMoreCommands p
      then (let (l, f) = getline (file_stream p);
                l1 = substr l 0 (find_str l ''//'');
                l2 = filter (\<lambda>c. \<not> isspace c) l1;
                p1 = p\<lparr>file_stream := f, currentCommand := l2\<rparr>
            in if l2 \<noteq> [] then parseCommand p1 else p1)
      else p)"

definition getCommandType :: "Parser \<Rightarrow> CommandType" where
  "getCommandType p = commandType p"

definition getSymbol :: "Parser \<Rightarrow> string" where
  "getSymbol p = symbol p"

definition getDest :: "Parser \<Rightarrow> string" where
  "getDest p = dest p"

definition getComp :: "Parser \<Rightarrow> string" where
  "getComp p = comp_field p"

definition getJump :: "Parser \<Rightarrow> string" where
  "getJump p = jump p"

subsection \<open>class Code\<close>

record Code =
  destTable :: "string \<rightharpoonup> string"
  compTable :: "string \<rightharpoonup> string"
  jumpTable :: "string \<rightharpoonup> string"

definition initDestTable :: "Code \<Rightarrow> Code" where
  "initDestTable c = c\<lparr>destTable := (destTable c)
     ('''' \<mapsto> ''000'', ''M'' \<mapsto> ''001'', ''D'' \<mapsto> ''010'', ''MD'' \<mapsto> ''011'',
      ''A'' \<mapsto> ''100'', ''AM'' \<mapsto> ''101'', ''AD'' \<mapsto> ''110'', ''AMD'' \<mapsto> ''111'')\<rparr>"

definition initCompTable :: "Code \<Rightarrow> Code" where
  "initCompTable c = c\<lparr>compTable := (compTable c)
     (''0'' \<mapsto> ''0101010'', ''1'' \<mapsto> ''0111111'', ''-1'' \<mapsto> ''0111010'',
      ''D'' \<mapsto> ''0001100'', ''A'' \<mapsto> ''0110000'', ''M'' \<mapsto> ''1110000'',
      ''!D'' \<mapsto> ''0001101'', ''!A'' \<mapsto> ''0110001'', ''!M'' \<mapsto> ''1110001'',
      ''-D'' \<mapsto> ''0001111'', ''-A'' \<mapsto> ''0110011'', ''-M'' \<mapsto> ''1110011'',
      ''D+1'' \<mapsto> ''0011111'', ''A+1'' \<mapsto> ''0110111'', ''M+1'' \<mapsto> ''1110111'',
      ''D-1'' \<mapsto> ''0001110'', ''A-1'' \<mapsto> ''0110010'', ''M-1'' \<mapsto> ''1110010'',
      ''D+A'' \<mapsto> ''0000010'', ''D+M'' \<mapsto> ''1000010'', ''D-A'' \<mapsto> ''0010011'',
      ''D-M'' \<mapsto> ''1010011'', ''A-D'' \<mapsto> ''0000111'', ''M-D'' \<mapsto> ''1000111'',
      ''D&A'' \<mapsto> ''0000000'', ''D&M'' \<mapsto> ''1000000'', ''D|A'' \<mapsto> ''0010101'',
      ''D|M'' \<mapsto> ''1010101'')\<rparr>"

definition initJumpTable :: "Code \<Rightarrow> Code" where
  "initJumpTable c = c\<lparr>jumpTable := (jumpTable c)
     ('''' \<mapsto> ''000'', ''JGT'' \<mapsto> ''001'', ''JEQ'' \<mapsto> ''010'', ''JGE'' \<mapsto> ''011'',
      ''JLT'' \<mapsto> ''100'', ''JNE'' \<mapsto> ''101'', ''JLE'' \<mapsto> ''110'', ''JMP'' \<mapsto> ''111'')\<rparr>"

definition Code_new :: Code where
  "Code_new =
     initJumpTable (initCompTable (initDestTable
       \<lparr>destTable = Map.empty, compTable = Map.empty, jumpTable = Map.empty\<rparr>))"

definition Code_dest :: "Code \<Rightarrow> string \<Rightarrow> string \<times> Code" where
  "Code_dest c mnemonic =
     (let (v, t) = subscript (destTable c) mnemonic [] in (v, c\<lparr>destTable := t\<rparr>))"

definition Code_comp :: "Code \<Rightarrow> string \<Rightarrow> string \<times> Code" where
  "Code_comp c mnemonic =
     (let (v, t) = subscript (compTable c) mnemonic [] in (v, c\<lparr>compTable := t\<rparr>))"

definition Code_jump :: "Code \<Rightarrow> string \<Rightarrow> string \<times> Code" where
  "Code_jump c mnemonic =
     (let (v, t) = subscript (jumpTable c) mnemonic [] in (v, c\<lparr>jumpTable := t\<rparr>))"

subsection \<open>class Assembler\<close>

record Assembler =
  symbolTable :: SymbolTable
  code :: Code

definition Assembler_new :: Assembler where
  "Assembler_new = \<lparr>symbolTable = SymbolTable_new, code = Code_new\<rparr>"

text \<open>
  A pass works on the members of the assembler and on its own local variables: both passes
  have a parser, pass 1 has the ROM counter, pass 2 the output file. The output file is the
  list of the lines written so far (each is written with its line break in one statement).
\<close>

record pass_frame = Assembler +
  parser :: Parser

record firstPass_frame = pass_frame +
  romAddress :: int

record secondPass_frame = pass_frame +
  outFile :: "string list"

text \<open>What is left to read decreases with every line read, so both loops end.\<close>

definition stream_left :: "ifstream \<Rightarrow> nat" where
  "stream_left f = (if eofbit f then 0 else Suc (length (unread f)))"

text \<open>The body of the loop of pass 1, and the loop.\<close>

definition firstPass_body :: "firstPass_frame \<Rightarrow> firstPass_frame" where
  "firstPass_body s =
     (let s1 = s\<lparr>parser := advance (parser s)\<rparr>;
          type = getCommandType (parser s1)
      in if type = L_COMMAND
         then s1\<lparr>symbolTable := addEntry (symbolTable s1) (getSymbol (parser s1)) (romAddress s1)\<rparr>
         else if type \<noteq> INVALID_COMMAND
         then s1\<lparr>romAddress := romAddress s1 + 1\<rparr>
         else s1)"

lemma stream_left_getline:
  "\<not> eofbit f \<Longrightarrow> stream_left (snd (getline f)) < stream_left f"
proof -
  assume open_: "\<not> eofbit f"
  let ?d = "dropWhile (\<lambda>c. c \<noteq> CHR 0x0A) (unread f)"
  have le: "length ?d \<le> length (unread f)" by (rule length_dropWhile_le)
  show ?thesis
  proof (cases ?d)
    case Nil
    then show ?thesis using open_ unfolding getline_def Let_def stream_left_def
      by (simp only: list.case snd_conv) simp
  next
    case (Cons c r)
    with le have "length r < length (unread f)" by simp
    with Cons show ?thesis using open_ unfolding getline_def Let_def stream_left_def
      by (simp only: list.case snd_conv) simp
  qed
qed

lemma file_stream_parseCCommand [simp]: "file_stream (parseCCommand p) = file_stream p"
  by (simp add: parseCCommand_def Let_def)

lemma file_stream_parseCommand [simp]: "file_stream (parseCommand p) = file_stream p"
  by (simp add: parseCommand_def Let_def)

lemma file_stream_advance:
  "file_stream (advance p) = (if hasMoreCommands p then snd (getline (file_stream p)) else file_stream p)"
  by (simp add: advance_def Let_def split: prod.split)

lemma stream_left_advance:
  "hasMoreCommands p \<Longrightarrow> stream_left (file_stream (advance p)) < stream_left (file_stream p)"
  by (simp add: file_stream_advance stream_left_getline hasMoreCommands_def)

lemma parser_firstPass_body [simp]: "parser (firstPass_body s) = advance (parser s)"
  by (simp add: firstPass_body_def Let_def)

function firstPass_loop :: "firstPass_frame \<Rightarrow> firstPass_frame" where
  "firstPass_loop s = (if hasMoreCommands (parser s) then firstPass_loop (firstPass_body s) else s)"
  by pat_completeness auto
termination
  by (relation "measure (\<lambda>s. stream_left (file_stream (parser s)))")
     (simp_all add: stream_left_advance)

declare firstPass_loop.simps [simp del]

definition firstPass_run :: "Assembler \<Rightarrow> CommandType \<Rightarrow> string \<Rightarrow> firstPass_frame" where
  "firstPass_run asm ct inputFile =
     firstPass_loop \<lparr>symbolTable = symbolTable asm, code = code asm,
                     parser = Parser_new ct inputFile, romAddress = 0\<rparr>"

definition firstPass :: "Assembler \<Rightarrow> CommandType \<Rightarrow> string \<Rightarrow> Assembler" where
  "firstPass asm ct inputFile =
     (let s = firstPass_run asm ct inputFile in \<lparr>symbolTable = symbolTable s, code = code s\<rparr>)"

text \<open>The body of the loop of pass 2, and the loop. The exception of \<open>stoi\<close> ends the run.\<close>

definition secondPass_body :: "secondPass_frame \<Rightarrow> error + secondPass_frame" where
  "secondPass_body s =
     (let s1 = s\<lparr>parser := advance (parser s)\<rparr>;
          type = getCommandType (parser s1)
      in if type = A_COMMAND
         then (let symbol = getSymbol (parser s1)
               in if isdigit (front symbol)
                  then (case stoi symbol of
                          Inl e \<Rightarrow> Inl e
                        | Inr address \<Rightarrow>
                            Inr (s1\<lparr>outFile := outFile s1 @
                                      [''0'' @ bitset_to_string ADDRESS_LEN address]\<rparr>))
                  else (let (address, st) = addVariable (symbolTable s1) symbol
                        in Inr (s1\<lparr>symbolTable := st,
                                   outFile := outFile s1 @
                                      [''0'' @ bitset_to_string ADDRESS_LEN address]\<rparr>)))
         else if type = C_COMMAND
         then (let (dest, c1) = Code_dest (code s1) (getDest (parser s1));
                   (comp, c2) = Code_comp c1 (getComp (parser s1));
                   (jump, c3) = Code_jump c2 (getJump (parser s1))
               in Inr (s1\<lparr>code := c3, outFile := outFile s1 @ [''111'' @ comp @ dest @ jump]\<rparr>))
         else Inr s1)"

lemma parser_secondPass_body:
  "secondPass_body s = Inr s' \<Longrightarrow> parser s' = advance (parser s)"
  by (auto simp add: secondPass_body_def Let_def split: if_splits sum.splits prod.splits)

function secondPass_loop :: "secondPass_frame \<Rightarrow> error + secondPass_frame" where
  "secondPass_loop s =
     (if hasMoreCommands (parser s)
      then (case secondPass_body s of Inl e \<Rightarrow> Inl e | Inr s' \<Rightarrow> secondPass_loop s')
      else Inr s)"
  by pat_completeness auto
termination
  by (relation "measure (\<lambda>s. stream_left (file_stream (parser s)))")
     (simp_all add: stream_left_advance parser_secondPass_body)

declare secondPass_loop.simps [simp del]

definition secondPass :: "Assembler \<Rightarrow> CommandType \<Rightarrow> string \<Rightarrow> error + secondPass_frame" where
  "secondPass asm ct inputFile =
     secondPass_loop \<lparr>symbolTable = symbolTable asm, code = code asm,
                      parser = Parser_new ct inputFile, outFile = []\<rparr>"

text \<open>
  \<open>assemble\<close> runs pass 1 and pass 2 on the same file, each with a parser of its own (so with
  an uninitialised command type of its own). The result is the last frame of pass 2, with
  the lines written in \<open>outFile\<close>, or the exception.
\<close>

definition assemble :: "Assembler \<Rightarrow> CommandType \<Rightarrow> CommandType \<Rightarrow> string \<Rightarrow> error + secondPass_frame" where
  "assemble asm ct1 ct2 inputFile = secondPass (firstPass asm ct1 inputFile) ct2 inputFile"

text \<open>
  \<open>main\<close> with two arguments builds an assembler and calls \<open>assemble\<close>. \<open>translate\<close> is that
  call on the content of the input file; its result is the lines of the output file.
\<close>

definition translate :: "CommandType \<Rightarrow> CommandType \<Rightarrow> string \<Rightarrow> error + string list" where
  "translate ct1 ct2 inputFile =
     (case assemble Assembler_new ct1 ct2 inputFile of Inl e \<Rightarrow> Inl e | Inr s \<Rightarrow> Inr (outFile s))"

text \<open>
  What the loop of a pass sees: the parser after each call of \<open>advance\<close>, for as long as
  \<open>hasMoreCommands\<close> holds. On a blank line the parser keeps the command of the line
  before, so that command is seen again.
\<close>

function commands :: "Parser \<Rightarrow> Parser list" where
  "commands p = (if hasMoreCommands p then advance p # commands (advance p) else [])"
  by pat_completeness auto
termination
  by (relation "measure (\<lambda>p. stream_left (file_stream p))") (simp_all add: stream_left_advance)

declare commands.simps [simp del]

text \<open>
  The commands for which pass 2 writes a line, and those for which pass 1 increments the ROM
  counter (every command type other than the two it names, so also \<open>C_COMMAND\<close>).
\<close>

definition emitting :: "Parser \<Rightarrow> bool" where
  "emitting q = (commandType q = A_COMMAND \<or> commandType q = C_COMMAND)"

definition counted :: "Parser \<Rightarrow> bool" where
  "counted q = (commandType q \<noteq> L_COMMAND \<and> commandType q \<noteq> INVALID_COMMAND)"

section \<open>The symbol table\<close>

text \<open>
  The four operations of the symbol table, as values, so that a sequence of calls can be
  run: \<open>bind\<close> is \<open>addEntry\<close>, \<open>assignVariable\<close> is \<open>addVariable\<close>, \<open>resolve\<close> is
  \<open>getAddress\<close>. Only the table after the call is kept.
\<close>

datatype table_op = Bind string int | AssignVariable string | Contains string | Resolve string

fun apply_op :: "SymbolTable \<Rightarrow> table_op \<Rightarrow> SymbolTable" where
  "apply_op st (Bind s a) = addEntry st s a"
| "apply_op st (AssignVariable s) = snd (addVariable st s)"
| "apply_op st (Contains s) = (let b = contains st s in st)"
| "apply_op st (Resolve s) = snd (getAddress st s)"

lemma contains_addEntry: "contains st n \<Longrightarrow> contains (addEntry st s a) n"
  by (simp add: contains_def addEntry_def)

lemma contains_getAddress: "contains st n \<Longrightarrow> contains (snd (getAddress st s)) n"
  by (simp add: contains_def getAddress_def subscript_def split: option.split)

lemma contains_addVariable: "contains st n \<Longrightarrow> contains (snd (addVariable st s)) n"
  by (simp add: contains_def addVariable_def subscript_def Let_def split: option.split)

lemma contains_apply_op: "contains st n \<Longrightarrow> contains (apply_op st x) n"
  by (cases x) (simp_all add: contains_addEntry contains_getAddress contains_addVariable)

text \<open>
  C6. On a freshly constructed table \<open>contains\<close> holds of every predefined name, and
  \<open>getAddress\<close> returns its documented address.
\<close>

theorem predefined_symbols:
  "contains SymbolTable_new ''SP'' \<and> fst (getAddress SymbolTable_new ''SP'') = 0 \<and>
   contains SymbolTable_new ''LCL'' \<and> fst (getAddress SymbolTable_new ''LCL'') = 1 \<and>
   contains SymbolTable_new ''ARG'' \<and> fst (getAddress SymbolTable_new ''ARG'') = 2 \<and>
   contains SymbolTable_new ''THIS'' \<and> fst (getAddress SymbolTable_new ''THIS'') = 3 \<and>
   contains SymbolTable_new ''THAT'' \<and> fst (getAddress SymbolTable_new ''THAT'') = 4 \<and>
   contains SymbolTable_new ''SCREEN'' \<and> fst (getAddress SymbolTable_new ''SCREEN'') = 16384 \<and>
   contains SymbolTable_new ''KBD'' \<and> fst (getAddress SymbolTable_new ''KBD'') = 24576 \<and>
   contains SymbolTable_new ''R0'' \<and> fst (getAddress SymbolTable_new ''R0'') = 0 \<and>
   contains SymbolTable_new ''R1'' \<and> fst (getAddress SymbolTable_new ''R1'') = 1 \<and>
   contains SymbolTable_new ''R2'' \<and> fst (getAddress SymbolTable_new ''R2'') = 2 \<and>
   contains SymbolTable_new ''R3'' \<and> fst (getAddress SymbolTable_new ''R3'') = 3 \<and>
   contains SymbolTable_new ''R4'' \<and> fst (getAddress SymbolTable_new ''R4'') = 4 \<and>
   contains SymbolTable_new ''R5'' \<and> fst (getAddress SymbolTable_new ''R5'') = 5 \<and>
   contains SymbolTable_new ''R6'' \<and> fst (getAddress SymbolTable_new ''R6'') = 6 \<and>
   contains SymbolTable_new ''R7'' \<and> fst (getAddress SymbolTable_new ''R7'') = 7 \<and>
   contains SymbolTable_new ''R8'' \<and> fst (getAddress SymbolTable_new ''R8'') = 8 \<and>
   contains SymbolTable_new ''R9'' \<and> fst (getAddress SymbolTable_new ''R9'') = 9 \<and>
   contains SymbolTable_new ''R10'' \<and> fst (getAddress SymbolTable_new ''R10'') = 10 \<and>
   contains SymbolTable_new ''R11'' \<and> fst (getAddress SymbolTable_new ''R11'') = 11 \<and>
   contains SymbolTable_new ''R12'' \<and> fst (getAddress SymbolTable_new ''R12'') = 12 \<and>
   contains SymbolTable_new ''R13'' \<and> fst (getAddress SymbolTable_new ''R13'') = 13 \<and>
   contains SymbolTable_new ''R14'' \<and> fst (getAddress SymbolTable_new ''R14'') = 14 \<and>
   contains SymbolTable_new ''R15'' \<and> fst (getAddress SymbolTable_new ''R15'') = 15"
  by code_simp

text \<open>
  C10. \<open>getAddress\<close> on a name without a binding returns 0 and binds the name to 0:
  \<open>contains\<close> holds of it afterwards, and a later \<open>addVariable\<close> of the name returns 0,
  changes nothing and takes no variable address.
\<close>

theorem getAddress_unbound_binds_zero:
  assumes "\<not> contains st s"
  shows "fst (getAddress st s) = 0 \<and>
         table (snd (getAddress st s)) = (table st)(s \<mapsto> 0) \<and>
         nextVariableAddress (snd (getAddress st s)) = nextVariableAddress st \<and>
         contains (snd (getAddress st s)) s \<and>
         addVariable (snd (getAddress st s)) s = (0, snd (getAddress st s))"
  using assms
  by (simp add: contains_def getAddress_def addVariable_def subscript_def)

theorem getAddress_unbound_binds_zero_witness:
  "\<not> contains SymbolTable_new ''sum'' \<and>
   fst (getAddress SymbolTable_new ''sum'') = 0 \<and>
   contains (snd (getAddress SymbolTable_new ''sum'')) ''sum'' \<and>
   fst (addVariable (snd (getAddress SymbolTable_new ''sum'')) ''sum'') = 0 \<and>
   fst (addVariable SymbolTable_new ''sum'') = 16"
proof -
  have h: "\<not> contains SymbolTable_new ''sum''" by code_simp
  have fresh: "fst (addVariable SymbolTable_new ''sum'') = 16" by code_simp
  from h fresh getAddress_unbound_binds_zero [OF h] show ?thesis by simp
qed

section \<open>The instruction encoder\<close>

text \<open>
  The mnemonics of the three tables, in the order the source fills them, and the reading of
  a table in reverse over such a list: the mnemonic whose entry is the given bit field.
\<close>

definition dest_mnemonics :: "string list" where
  "dest_mnemonics = ['''', ''M'', ''D'', ''MD'', ''A'', ''AM'', ''AD'', ''AMD'']"

definition comp_mnemonics :: "string list" where
  "comp_mnemonics =
     [''0'', ''1'', ''-1'', ''D'', ''A'', ''M'', ''!D'', ''!A'', ''!M'', ''-D'', ''-A'', ''-M'',
      ''D+1'', ''A+1'', ''M+1'', ''D-1'', ''A-1'', ''M-1'', ''D+A'', ''D+M'', ''D-A'', ''D-M'',
      ''A-D'', ''M-D'', ''D&A'', ''D&M'', ''D|A'', ''D|M'']"

definition jump_mnemonics :: "string list" where
  "jump_mnemonics = ['''', ''JGT'', ''JEQ'', ''JGE'', ''JLT'', ''JNE'', ''JLE'', ''JMP'']"

definition decode :: "(string \<rightharpoonup> string) \<Rightarrow> string list \<Rightarrow> string \<Rightarrow> string option" where
  "decode tbl ms bits = find (\<lambda>m. tbl m = Some bits) ms"

lemmas Code_new_defs = Code_new_def initDestTable_def initCompTable_def initJumpTable_def

lemma dom_destTable: "dom (destTable Code_new) = set dest_mnemonics"
  by (simp add: Code_new_defs dest_mnemonics_def insert_commute)

lemma dom_compTable: "dom (compTable Code_new) = set comp_mnemonics"
  by (simp add: Code_new_defs comp_mnemonics_def insert_commute)

lemma dom_jumpTable: "dom (jumpTable Code_new) = set jump_mnemonics"
  by (simp add: Code_new_defs jump_mnemonics_def insert_commute)

lemma dest_roundtrip:
  "\<forall>m \<in> set dest_mnemonics.
     decode (destTable Code_new) dest_mnemonics (fst (Code_dest Code_new m)) = Some m"
  by code_simp

lemma comp_roundtrip:
  "\<forall>m \<in> set comp_mnemonics.
     decode (compTable Code_new) comp_mnemonics (fst (Code_comp Code_new m)) = Some m"
  by code_simp

lemma jump_roundtrip:
  "\<forall>m \<in> set jump_mnemonics.
     decode (jumpTable Code_new) jump_mnemonics (fst (Code_jump Code_new m)) = Some m"
  by code_simp

text \<open>
  C7. Each table is injective on its domain: for every mnemonic of a table, encoding it
  and reading the table in reverse at the bit field gives the mnemonic back. The three
  lists are exactly the domains of the three tables.
\<close>

theorem encode_decode_roundtrip:
  "dom (destTable Code_new) = set dest_mnemonics \<and>
   dom (compTable Code_new) = set comp_mnemonics \<and>
   dom (jumpTable Code_new) = set jump_mnemonics \<and>
   (\<forall>m \<in> set dest_mnemonics.
      decode (destTable Code_new) dest_mnemonics (fst (Code_dest Code_new m)) = Some m) \<and>
   (\<forall>m \<in> set comp_mnemonics.
      decode (compTable Code_new) comp_mnemonics (fst (Code_comp Code_new m)) = Some m) \<and>
   (\<forall>m \<in> set jump_mnemonics.
      decode (jumpTable Code_new) jump_mnemonics (fst (Code_jump Code_new m)) = Some m)"
  using dom_destTable dom_compTable dom_jumpTable dest_roundtrip comp_roundtrip jump_roundtrip
  by blast

theorem encode_decode_roundtrip_witness:
  "''AMD'' \<in> set dest_mnemonics \<and> ''D+A'' \<in> set comp_mnemonics \<and> ''JMP'' \<in> set jump_mnemonics \<and>
   decode (destTable Code_new) dest_mnemonics (fst (Code_dest Code_new ''AMD'')) = Some ''AMD'' \<and>
   decode (compTable Code_new) comp_mnemonics (fst (Code_comp Code_new ''D+A'')) = Some ''D+A'' \<and>
   decode (jumpTable Code_new) jump_mnemonics (fst (Code_jump Code_new ''JMP'')) = Some ''JMP''"
proof -
  have d: "''AMD'' \<in> set dest_mnemonics" by (simp add: dest_mnemonics_def)
  have c: "''D+A'' \<in> set comp_mnemonics" by (simp add: comp_mnemonics_def)
  have j: "''JMP'' \<in> set jump_mnemonics" by (simp add: jump_mnemonics_def)
  from d c j encode_decode_roundtrip show ?thesis by blast
qed

section \<open>Whole runs on concrete sources\<close>

text \<open>
  C5. The source of the six lines \<open>@2\<close>, \<open>D=A\<close>, \<open>@3\<close>, \<open>D=D+A\<close>, \<open>@0\<close>, \<open>M=D\<close>, separated
  by line feeds, is translated to exactly six lines of 16 bits; the first is
  \<open>0000000000000010\<close> and the second \<open>1110110000010000\<close>. This holds whatever the
  uninitialised command types of the two parsers are.
\<close>

theorem translate_six_lines:
  "translate ct1 ct2 ''@2\<newline>D=A\<newline>@3\<newline>D=D+A\<newline>@0\<newline>M=D'' =
     Inr [''0000000000000010'', ''1110110000010000'', ''0000000000000011'',
          ''1110000010010000'', ''0000000000000000'', ''1110001100001000'']"
  by code_simp

text \<open>
  C1, at a failing input. A blank line does not reach \<open>parseCommand\<close>, but the loops of
  both passes read the command type all the same, and find the one of the line before. The
  source \<open>@2\<close>, blank line, \<open>D=A\<close> has one address command and one compute command; three
  lines are written, and the ROM counter of pass 1 ends at 3.
\<close>

theorem blank_line_repeats_command:
  "translate ct1 ct2 ''@2\<newline>\<newline>D=A'' =
     Inr [''0000000000000010'', ''0000000000000010'', ''1110110000010000''] \<and>
   romAddress (firstPass_run Assembler_new ct1 ''@2\<newline>\<newline>D=A'') = 3"
  by code_simp

text \<open>
  The same happens at the end of a file whose last line ends with a line feed: \<open>getline\<close>
  has not met the end of the file after the last line, the loop runs once more on an empty
  line, and the last command is written a second time.
\<close>

lemma final_line_feed_repeats_command:
  "translate ct1 ct2 ''@2\<newline>D=A\<newline>'' =
     Inr [''0000000000000010'', ''1110110000010000'', ''1110110000010000'']"
  by code_simp

text \<open>
  C3, at a failing input. In the source \<open>@2\<close>, blank line, \<open>(L)\<close>, \<open>@L\<close> one command
  precedes the label, and pass 1 binds the label to 2: the blank line has counted as a
  second address command.
\<close>

theorem blank_line_shifts_label:
  "table (symbolTable (firstPass Assembler_new ct1 ''@2\<newline>\<newline>(L)\<newline>@L'')) ''L'' = Some 2"
  by code_simp

section \<open>The line classifier\<close>

text \<open>
  The fields of a compute command as the specification words them: the line is split at its
  first \<open>=\<close> (the part before is the destination, empty without \<open>=\<close>), the remainder at
  its first \<open>;\<close> (the part before is the computation, the part after the jump, empty
  without \<open>;\<close>).
\<close>

definition spec_compute_fields :: "string \<Rightarrow> string \<times> string \<times> string" where
  "spec_compute_fields cc =
     (let (d, rest) = (if CHR ''='' \<in> set cc
                       then (takeWhile (\<lambda>c. c \<noteq> CHR ''='') cc, tl (dropWhile (\<lambda>c. c \<noteq> CHR ''='') cc))
                       else ([], cc));
          (c, j) = (if CHR '';'' \<in> set rest
                    then (takeWhile (\<lambda>c. c \<noteq> CHR '';'') rest, tl (dropWhile (\<lambda>c. c \<noteq> CHR '';'') rest))
                    else (rest, []))
      in (d, c, j))"

lemma size_t_sub_le: "b \<le> a \<Longrightarrow> a < 2 ^ 64 \<Longrightarrow> size_t_sub a b = a - b"
proof -
  assume le: "b \<le> a" and lt: "a < 2 ^ 64"
  from le have eq: "a + 2 ^ 64 - b = (a - b) + 2 ^ 64" by arith
  from lt have "a - b < 2 ^ 64" by arith
  then have "((a - b) + 2 ^ 64) mod 2 ^ 64 = a - b" by simp
  with eq show ?thesis by (simp only: size_t_sub_def)
qed

lemma length_takeWhile_neq_less:
  "c \<in> set s \<Longrightarrow> length (takeWhile (\<lambda>x. x \<noteq> c) s) < length s"
  by (induction s) auto

lemma find_char_present:
  "c \<in> set s \<Longrightarrow> find_char s c = length (takeWhile (\<lambda>x. x \<noteq> c) s) \<and> find_char s c < length s"
  using length_takeWhile_neq_less [of c s] by (simp add: find_char_def)

lemma find_char_npos_iff: "length s \<le> npos \<Longrightarrow> find_char s c \<noteq> npos \<longleftrightarrow> c \<in> set s"
proof -
  assume len: "length s \<le> npos"
  show ?thesis
  proof (cases "c \<in> set s")
    case True
    then have "find_char s c < length s" using find_char_present by blast
    with len True show ?thesis by simp
  next
    case False
    then show ?thesis by (simp add: find_char_def)
  qed
qed

lemma tl_dropWhile_eq_drop:
  "tl (dropWhile P xs) = drop (Suc (length (takeWhile P xs))) xs"
  by (simp add: dropWhile_eq_drop drop_Suc tl_drop)

lemma takeWhile_drop_after:
  assumes "\<forall>x \<in> set (take n xs). P x"
  shows "takeWhile P xs = take n xs @ takeWhile P (drop n xs)"
proof -
  have "takeWhile P (take n xs @ drop n xs) = take n xs @ takeWhile P (drop n xs)"
    using assms by (intro takeWhile_append2) simp
  then show ?thesis by simp
qed


lemma npos_less: "npos < 2 ^ 64"
  by (simp add: npos_def)

lemma size_t_sub_found:
  assumes "e < s" "s < npos"
  shows "size_t_sub (size_t_sub s e) 1 = s - e - 1"
proof -
  from assms npos_less have s64: "s < 2 ^ 64" by arith
  with assms have "size_t_sub s e = s - e" by (intro size_t_sub_le) simp_all
  moreover from assms s64 have "size_t_sub (s - e) 1 = s - e - 1" by (intro size_t_sub_le) simp_all
  ultimately show ?thesis by simp
qed

lemma size_t_sub_absent:
  assumes "e < npos"
  shows "size_t_sub (size_t_sub npos e) 1 = npos - e - 1"
proof -
  from assms npos_less have "size_t_sub npos e = npos - e" by (intro size_t_sub_le) simp_all
  moreover from assms npos_less have "size_t_sub (npos - e) 1 = npos - e - 1"
    by (intro size_t_sub_le) simp_all
  ultimately show ?thesis by simp
qed

lemma substr_to_end: "length s \<le> pos + n \<Longrightarrow> substr s pos n = drop pos s"
  by (simp add: substr_def)

lemma substr_prefix: "substr s 0 (length (takeWhile P s)) = takeWhile P s"
  by (simp add: substr_def takeWhile_eq_take [symmetric])

lemma fields_parseCCommand:
  "dest (parseCCommand p) =
     (if find_char (currentCommand p) CHR ''='' \<noteq> npos
      then substr (currentCommand p) 0 (find_char (currentCommand p) CHR ''='') else [])"
  "comp_field (parseCCommand p) =
     (if find_char (currentCommand p) CHR ''='' \<noteq> npos
      then substr (currentCommand p) (find_char (currentCommand p) CHR ''='' + 1)
             (size_t_sub (size_t_sub (find_char (currentCommand p) CHR '';'')
                                     (find_char (currentCommand p) CHR ''='')) 1)
      else substr (currentCommand p) 0 (find_char (currentCommand p) CHR '';''))"
  "jump (parseCCommand p) =
     (if find_char (currentCommand p) CHR '';'' \<noteq> npos
      then substr (currentCommand p) (find_char (currentCommand p) CHR '';'' + 1) npos else [])"
  "commandType (parseCCommand p) = commandType p"
  "symbol (parseCCommand p) = symbol p"
  "currentCommand (parseCCommand p) = currentCommand p"
  by (simp_all add: parseCCommand_def Let_def)

text \<open>Strings only: the three fields as the source cuts them, against the two splits.\<close>

lemma split_eq_then_semi:
  fixes cc :: string
  defines "e \<equiv> length (takeWhile (\<lambda>c. c \<noteq> CHR ''='') cc)"
    and "s \<equiv> length (takeWhile (\<lambda>c. c \<noteq> CHR '';'') cc)"
  assumes eq: "CHR ''='' \<in> set cc" and semi: "CHR '';'' \<in> set cc"
    and order: "CHR '';'' \<notin> set (takeWhile (\<lambda>c. c \<noteq> CHR ''='') cc)"
  shows "e < s"
    and "CHR '';'' \<in> set (drop (Suc e) cc)"
    and "take (s - e - 1) (drop (Suc e) cc) = takeWhile (\<lambda>c. c \<noteq> CHR '';'') (drop (Suc e) cc)"
    and "drop (Suc s) cc = tl (dropWhile (\<lambda>c. c \<noteq> CHR '';'') (drop (Suc e) cc))"
proof -
  let ?rest = "drop (Suc e) cc"
  let ?s' = "length (takeWhile (\<lambda>c. c \<noteq> CHR '';'') ?rest)"
  from eq have e_lt: "e < length cc" unfolding e_def by (rule length_takeWhile_neq_less)
  from e_lt have "\<not> cc ! e \<noteq> CHR ''=''" unfolding e_def by (rule nth_length_takeWhile)
  then have hd_eq: "cc ! e = CHR ''=''" by simp
  have take_Suc: "take (Suc e) cc = takeWhile (\<lambda>c. c \<noteq> CHR ''='') cc @ [CHR ''='']"
    using e_lt hd_eq by (simp add: take_Suc_conv_app_nth e_def takeWhile_eq_take [symmetric])
  with order have clean: "\<forall>x \<in> set (take (Suc e) cc). x \<noteq> CHR '';''" by auto
  then have tw: "takeWhile (\<lambda>c. c \<noteq> CHR '';'') cc =
                   take (Suc e) cc @ takeWhile (\<lambda>c. c \<noteq> CHR '';'') ?rest"
    by (rule takeWhile_drop_after)
  from e_lt have "length (take (Suc e) cc) = Suc e" by simp
  moreover from tw have "s = length (take (Suc e) cc @ takeWhile (\<lambda>c. c \<noteq> CHR '';'') ?rest)"
    unfolding s_def by (rule arg_cong)
  ultimately have s_eq: "s = Suc e + ?s'" by (simp only: length_append)
  then show "e < s" by simp
  have "set (take (Suc e) cc @ ?rest) = set cc" by (simp only: append_take_drop_id)
  then have "set cc = set (take (Suc e) cc) \<union> set ?rest" by (simp only: set_append)
  with semi clean show in_rest: "CHR '';'' \<in> set ?rest" by auto
  from s_eq have "s - e - 1 = ?s'" by simp
  then show "take (s - e - 1) ?rest = takeWhile (\<lambda>c. c \<noteq> CHR '';'') ?rest"
    by (simp add: takeWhile_eq_take [symmetric])
  have "tl (dropWhile (\<lambda>c. c \<noteq> CHR '';'') ?rest) = drop (Suc ?s') ?rest"
    by (rule tl_dropWhile_eq_drop)
  also have "\<dots> = drop (Suc ?s' + Suc e) cc" by (simp only: drop_drop)
  also have "\<dots> = drop (Suc s) cc" using s_eq by (simp add: add.commute)
  finally show "drop (Suc s) cc = tl (dropWhile (\<lambda>c. c \<noteq> CHR '';'') ?rest)" by simp
qed


text \<open>
  C8, amended. A stripped line that contains \<open>=\<close> or \<open>;\<close> is a compute command with the
  fields of the two splits, provided that it does not start with \<open>@\<close>, is not of the
  form \<open>(...)\<close> (those two shapes are tried first), and that no \<open>;\<close> comes before its
  first \<open>=\<close>. The line is a \<open>std::string\<close>, so shorter than \<open>npos\<close>.
\<close>

theorem parseCommand_compute:
  assumes len: "length (currentCommand p) < npos"
    and noA: "front (currentCommand p) \<noteq> CHR ''@''"
    and noL: "\<not> (front (currentCommand p) = CHR ''('' \<and> last (currentCommand p) = CHR '')'')"
    and op: "CHR ''='' \<in> set (currentCommand p) \<or> CHR '';'' \<in> set (currentCommand p)"
    and order: "CHR ''='' \<in> set (currentCommand p) \<longrightarrow>
                CHR '';'' \<notin> set (takeWhile (\<lambda>c. c \<noteq> CHR ''='') (currentCommand p))"
  shows "commandType (parseCommand p) = C_COMMAND \<and>
         (dest (parseCommand p), comp_field (parseCommand p), jump (parseCommand p)) =
           spec_compute_fields (currentCommand p)"
proof -
  let ?cc = "currentCommand p"
  let ?e = "length (takeWhile (\<lambda>c. c \<noteq> CHR ''='') ?cc)"
  let ?s = "length (takeWhile (\<lambda>c. c \<noteq> CHR '';'') ?cc)"
  let ?q = "p\<lparr>commandType := C_COMMAND\<rparr>"
  from len have len': "length ?cc \<le> npos" by simp
  have cls: "parseCommand p = parseCCommand ?q"
    using noA noL op by (auto simp add: parseCommand_def Let_def find_char_npos_iff [OF len'])
  have cq: "currentCommand ?q = ?cc" by simp
  have ct: "commandType (parseCCommand ?q) = C_COMMAND"
    by (simp add: fields_parseCCommand)
  have jump_found: "CHR '';'' \<in> set ?cc \<Longrightarrow> jump (parseCCommand ?q) = drop (Suc ?s) ?cc"
  proof -
    assume semi: "CHR '';'' \<in> set ?cc"
    then have fs: "find_char ?cc CHR '';'' = ?s" and s_lt: "?s < length ?cc"
      by (simp_all add: find_char_def length_takeWhile_neq_less)
    from s_lt len have ne: "?s \<noteq> npos" by simp
    from len' have "length ?cc \<le> Suc ?s + npos" by simp
    then have "substr ?cc (Suc ?s) npos = drop (Suc ?s) ?cc" by (rule substr_to_end)
    then show ?thesis
      by (simp add: fields_parseCCommand fs ne)
  qed
  have fields: "(dest (parseCCommand ?q), comp_field (parseCCommand ?q), jump (parseCCommand ?q)) =
                  spec_compute_fields ?cc"
  proof (cases "CHR ''='' \<in> set ?cc")
    case eq: True
    then have fe: "find_char ?cc CHR ''='' = ?e" and e_lt: "?e < length ?cc"
      by (simp_all add: find_char_def length_takeWhile_neq_less)
    from eq order have ord: "CHR '';'' \<notin> set (takeWhile (\<lambda>c. c \<noteq> CHR ''='') ?cc)" by simp
    from e_lt len have e_ne: "?e \<noteq> npos" by simp
    have d: "dest (parseCCommand ?q) = takeWhile (\<lambda>c. c \<noteq> CHR ''='') ?cc"
      by (simp add: fields_parseCCommand fe e_ne substr_prefix)
    have rest: "tl (dropWhile (\<lambda>c. c \<noteq> CHR ''='') ?cc) = drop (Suc ?e) ?cc"
      by (rule tl_dropWhile_eq_drop)
    show ?thesis
    proof (cases "CHR '';'' \<in> set ?cc")
      case semi: True
      then have fs: "find_char ?cc CHR '';'' = ?s" and s_lt: "?s < length ?cc"
        by (simp_all add: find_char_def length_takeWhile_neq_less)
      note sp = split_eq_then_semi [OF eq semi ord]
      from s_lt len have "?s < npos" by simp
      with sp(1) have cnt: "size_t_sub (size_t_sub ?s ?e) 1 = ?s - ?e - 1"
        by (rule size_t_sub_found)
      have c: "comp_field (parseCCommand ?q) =
                 takeWhile (\<lambda>c. c \<noteq> CHR '';'') (drop (Suc ?e) ?cc)"
        by (simp add: fields_parseCCommand fe e_ne fs cnt [simplified] substr_def sp(3) [simplified])
      have j: "jump (parseCCommand ?q) =
                 tl (dropWhile (\<lambda>c. c \<noteq> CHR '';'') (drop (Suc ?e) ?cc))"
        using jump_found [OF semi] sp(4) by simp
      show ?thesis
        using eq sp(2) by (simp add: spec_compute_fields_def rest d c j)
    next
      case nosemi: False
      then have fs: "find_char ?cc CHR '';'' = npos" by (simp add: find_char_def)
      from e_lt len have "?e < npos" by simp
      then have cnt: "size_t_sub (size_t_sub npos ?e) 1 = npos - ?e - 1"
        by (rule size_t_sub_absent)
      from len' e_lt have "length ?cc \<le> Suc ?e + (npos - ?e - 1)" by simp
      then have "substr ?cc (Suc ?e) (npos - ?e - 1) = drop (Suc ?e) ?cc"
        by (rule substr_to_end)
      then have c: "comp_field (parseCCommand ?q) = drop (Suc ?e) ?cc"
        by (simp add: fields_parseCCommand fe e_ne fs cnt [simplified])
      have j: "jump (parseCCommand ?q) = []"
        by (simp add: fields_parseCCommand fs)
      from nosemi have "CHR '';'' \<notin> set (drop (Suc ?e) ?cc)"
        by (meson in_set_dropD)
      then show ?thesis
        using eq by (simp add: spec_compute_fields_def rest d c j)
    qed
  next
    case noeq: False
    with op have semi: "CHR '';'' \<in> set ?cc" by simp
    then have fs: "find_char ?cc CHR '';'' = ?s" by (simp add: find_char_def)
    from noeq have fe: "find_char ?cc CHR ''='' = npos" by (simp add: find_char_def)
    have d: "dest (parseCCommand ?q) = []" by (simp add: fields_parseCCommand fe)
    have c: "comp_field (parseCCommand ?q) = takeWhile (\<lambda>c. c \<noteq> CHR '';'') ?cc"
      by (simp add: fields_parseCCommand fe fs substr_prefix)
    have j: "jump (parseCCommand ?q) = tl (dropWhile (\<lambda>c. c \<noteq> CHR '';'') ?cc)"
      using jump_found [OF semi] by (simp add: tl_dropWhile_eq_drop)
    show ?thesis
      using noeq semi by (simp add: spec_compute_fields_def d c j)
  qed
  from ct fields show ?thesis by (simp only: cls) 
qed

theorem parseCommand_compute_witness:
  "length (currentCommand ((Parser_new INVALID_COMMAND [])\<lparr>currentCommand := ''D=D+A;JGT''\<rparr>)) < npos \<and>
   commandType (parseCommand ((Parser_new INVALID_COMMAND [])\<lparr>currentCommand := ''D=D+A;JGT''\<rparr>)) = C_COMMAND \<and>
   dest (parseCommand ((Parser_new INVALID_COMMAND [])\<lparr>currentCommand := ''D=D+A;JGT''\<rparr>)) = ''D'' \<and>
   comp_field (parseCommand ((Parser_new INVALID_COMMAND [])\<lparr>currentCommand := ''D=D+A;JGT''\<rparr>)) = ''D+A'' \<and>
   jump (parseCommand ((Parser_new INVALID_COMMAND [])\<lparr>currentCommand := ''D=D+A;JGT''\<rparr>)) = ''JGT''"
proof -
  let ?p = "(Parser_new INVALID_COMMAND [])\<lparr>currentCommand := ''D=D+A;JGT''\<rparr>"
  have cc: "currentCommand ?p = ''D=D+A;JGT''" by simp
  have len: "length (currentCommand ?p) < npos" by (simp add: npos_def)
  have noA: "front (currentCommand ?p) \<noteq> CHR ''@''" by (simp add: front_def)
  have noL: "\<not> (front (currentCommand ?p) = CHR ''('' \<and> last (currentCommand ?p) = CHR '')'')"
    by (simp add: front_def)
  have op: "CHR ''='' \<in> set (currentCommand ?p) \<or> CHR '';'' \<in> set (currentCommand ?p)"
    by simp
  have order: "CHR ''='' \<in> set (currentCommand ?p) \<longrightarrow>
               CHR '';'' \<notin> set (takeWhile (\<lambda>c. c \<noteq> CHR ''='') (currentCommand ?p))"
    by simp
  have spec: "spec_compute_fields ''D=D+A;JGT'' = (''D'', ''D+A'', ''JGT'')"
    by (simp add: spec_compute_fields_def)
  from parseCommand_compute [OF len noA noL op order] spec len show ?thesis
    by (simp only: cc prod.inject)
qed

text \<open>
  C8 as stated fails twice. The line \<open>@D=A\<close> contains \<open>=\<close> and is an address command.
  The line \<open>A;B=C\<close> is a compute command, but its jump field is \<open>B=C\<close>, cut after the
  first \<open>;\<close> of the whole line, where the two splits give the empty jump.
\<close>

theorem compute_split_counterexample:
  "CHR ''='' \<in> set ''@D=A'' \<and>
   commandType (parseCommand ((Parser_new INVALID_COMMAND [])\<lparr>currentCommand := ''@D=A''\<rparr>)) = A_COMMAND \<and>
   CHR ''='' \<in> set ''A;B=C'' \<and>
   commandType (parseCommand ((Parser_new INVALID_COMMAND [])\<lparr>currentCommand := ''A;B=C''\<rparr>)) = C_COMMAND \<and>
   jump (parseCommand ((Parser_new INVALID_COMMAND [])\<lparr>currentCommand := ''A;B=C''\<rparr>)) = ''B=C'' \<and>
   spec_compute_fields ''A;B=C'' = (''A;B'', ''C'', [])"
  by code_simp


section \<open>Pass 2: the lines written\<close>

text \<open>
  A compute command has known mnemonics when its three fields are keys of the tables as the
  constructor fills them. A line is binary when it has 16 characters, each \<open>0\<close> or \<open>1\<close>.
  A lookup with \<open>m[k]\<close> adds a missing key with the empty string, so the tables of a run
  are the constructor's tables plus such entries: that is \<open>table_kept\<close>.
\<close>

definition known_mnemonics :: "Parser \<Rightarrow> bool" where
  "known_mnemonics q =
     (commandType q = C_COMMAND \<longrightarrow>
        destTable Code_new (dest q) \<noteq> None \<and>
        compTable Code_new (comp_field q) \<noteq> None \<and>
        jumpTable Code_new (jump q) \<noteq> None)"

definition binary_line :: "string \<Rightarrow> bool" where
  "binary_line l = (length l = 16 \<and> set l \<subseteq> {CHR ''0'', CHR ''1''})"

definition table_kept :: "(string \<rightharpoonup> string) \<Rightarrow> (string \<rightharpoonup> string) \<Rightarrow> bool" where
  "table_kept t0 t = (\<forall>k. t k = t0 k \<or> (t0 k = None \<and> t k = Some []))"

definition code_kept :: "Code \<Rightarrow> bool" where
  "code_kept c =
     (table_kept (destTable Code_new) (destTable c) \<and>
      table_kept (compTable Code_new) (compTable c) \<and>
      table_kept (jumpTable Code_new) (jumpTable c))"

lemma table_kept_refl: "table_kept t t"
  by (simp add: table_kept_def)

lemma table_kept_subscript:
  "table_kept t0 t \<Longrightarrow> table_kept t0 (snd (subscript t k []))"
proof -
  assume kept: "table_kept t0 t"
  then have k: "t k = t0 k \<or> (t0 k = None \<and> t k = Some [])"
    unfolding table_kept_def by (rule spec)
  show ?thesis
  proof (cases "t k")
    case None
    with k have "t0 k = None" by simp
    with kept None show ?thesis by (simp add: table_kept_def subscript_def)
  next
    case (Some v)
    with kept show ?thesis by (simp add: subscript_def)
  qed
qed

lemma subscript_known:
  "table_kept t0 t \<Longrightarrow> t0 k = Some v \<Longrightarrow> fst (subscript t k []) = v"
proof -
  assume "table_kept t0 t" and v: "t0 k = Some v"
  then have "t k = t0 k \<or> (t0 k = None \<and> t k = Some [])"
    unfolding table_kept_def by blast
  with v have "t k = Some v" by simp
  then show ?thesis by (simp add: subscript_def)
qed

lemma Code_dest_kept:
  assumes "Code_dest c m = (v, c')" "code_kept c"
  shows "code_kept c'" and "destTable Code_new m = Some v0 \<Longrightarrow> v = v0"
  using assms subscript_known [of "destTable Code_new" "destTable c" m v0]
    table_kept_subscript [of "destTable Code_new" "destTable c" m]
  by (auto simp add: Code_dest_def code_kept_def split: prod.splits)

lemma Code_comp_kept:
  assumes "Code_comp c m = (v, c')" "code_kept c"
  shows "code_kept c'" and "compTable Code_new m = Some v0 \<Longrightarrow> v = v0"
  using assms subscript_known [of "compTable Code_new" "compTable c" m v0]
    table_kept_subscript [of "compTable Code_new" "compTable c" m]
  by (auto simp add: Code_comp_def code_kept_def split: prod.splits)

lemma Code_jump_kept:
  assumes "Code_jump c m = (v, c')" "code_kept c"
  shows "code_kept c'" and "jumpTable Code_new m = Some v0 \<Longrightarrow> v = v0"
  using assms subscript_known [of "jumpTable Code_new" "jumpTable c" m v0]
    table_kept_subscript [of "jumpTable Code_new" "jumpTable c" m]
  by (auto simp add: Code_jump_def code_kept_def split: prod.splits)

lemma dest_bits_all:
  "\<forall>m \<in> set dest_mnemonics. length (the (destTable Code_new m)) = 3 \<and>
      set (the (destTable Code_new m)) \<subseteq> {CHR ''0'', CHR ''1''}"
  by code_simp

lemma comp_bits_all:
  "\<forall>m \<in> set comp_mnemonics. length (the (compTable Code_new m)) = 7 \<and>
      set (the (compTable Code_new m)) \<subseteq> {CHR ''0'', CHR ''1''}"
  by code_simp

lemma jump_bits_all:
  "\<forall>m \<in> set jump_mnemonics. length (the (jumpTable Code_new m)) = 3 \<and>
      set (the (jumpTable Code_new m)) \<subseteq> {CHR ''0'', CHR ''1''}"
  by code_simp

lemma dest_bits:
  "destTable Code_new m = Some v \<Longrightarrow> length v = 3 \<and> set v \<subseteq> {CHR ''0'', CHR ''1''}"
  using dest_bits_all dom_destTable by (metis domI option.sel)

lemma comp_bits:
  "compTable Code_new m = Some v \<Longrightarrow> length v = 7 \<and> set v \<subseteq> {CHR ''0'', CHR ''1''}"
  using comp_bits_all dom_compTable by (metis domI option.sel)

lemma jump_bits:
  "jumpTable Code_new m = Some v \<Longrightarrow> length v = 3 \<and> set v \<subseteq> {CHR ''0'', CHR ''1''}"
  using jump_bits_all dom_jumpTable by (metis domI option.sel)

lemma bitset_to_string_bits:
  "length (bitset_to_string n v) = n" "set (bitset_to_string n v) \<subseteq> {CHR ''0'', CHR ''1''}"
  by (auto simp add: bitset_to_string_def)

lemma address_line: "binary_line (''0'' @ bitset_to_string ADDRESS_LEN address)"
  using bitset_to_string_bits [of ADDRESS_LEN address]
  by (simp add: binary_line_def ADDRESS_LEN_def)

lemma compute_line:
  assumes "destTable Code_new d = Some dv" "compTable Code_new c = Some cv"
    "jumpTable Code_new j = Some jv"
  shows "binary_line (''111'' @ cv @ dv @ jv)"
  using dest_bits [OF assms(1)] comp_bits [OF assms(2)] jump_bits [OF assms(3)]
  by (simp add: binary_line_def)


lemma secondPass_body_line:
  assumes body: "secondPass_body s = Inr s'"
    and kept: "code_kept (code s)"
  shows "code_kept (code s') \<and>
         (if emitting (advance (parser s))
          then \<exists>l. outFile s' = outFile s @ [l] \<and>
                   (known_mnemonics (advance (parser s)) \<longrightarrow> binary_line l)
          else outFile s' = outFile s)"
proof (cases "commandType (advance (parser s)) = C_COMMAND")
  case True
  let ?q = "advance (parser s)"
  obtain d c1 where d: "Code_dest (code s) (dest ?q) = (d, c1)" by (cases "Code_dest (code s) (dest ?q)")
  obtain c c2 where c: "Code_comp c1 (comp_field ?q) = (c, c2)" by (cases "Code_comp c1 (comp_field ?q)")
  obtain j c3 where j: "Code_jump c2 (jump ?q) = (j, c3)" by (cases "Code_jump c2 (jump ?q)")
  from Code_dest_kept(1) [OF d kept] have k1: "code_kept c1" .
  from Code_comp_kept(1) [OF c k1] have k2: "code_kept c2" .
  from Code_jump_kept(1) [OF j k2] have k3: "code_kept c3" .
  from body True d c j
  have s': "s' = s\<lparr>parser := ?q, code := c3, outFile := outFile s @ [''111'' @ c @ d @ j]\<rparr>"
    by (simp add: secondPass_body_def Let_def getCommandType_def getDest_def getComp_def
          getJump_def)
  have "known_mnemonics ?q \<longrightarrow> binary_line (''111'' @ c @ d @ j)"
  proof
    assume "known_mnemonics ?q"
    with True obtain dv cv jv where
      dv: "destTable Code_new (dest ?q) = Some dv" and
      cv: "compTable Code_new (comp_field ?q) = Some cv" and
      jv: "jumpTable Code_new (jump ?q) = Some jv"
      by (auto simp add: known_mnemonics_def)
    from Code_dest_kept(2) [OF d kept dv] Code_comp_kept(2) [OF c k1 cv]
      Code_jump_kept(2) [OF j k2 jv]
    have "d = dv" "c = cv" "j = jv" .
    with compute_line [OF dv cv jv] show "binary_line (''111'' @ c @ d @ j)" by simp
  qed
  with True k3 show ?thesis by (simp add: s' emitting_def)
next
  case False
  show ?thesis
  proof (cases "commandType (advance (parser s)) = A_COMMAND")
    case True
    with body have "code s' = code s \<and>
        (\<exists>address. outFile s' = outFile s @ [''0'' @ bitset_to_string ADDRESS_LEN address])"
      by (auto simp add: secondPass_body_def Let_def getCommandType_def
            split: if_splits sum.splits prod.splits)
    with True kept address_line show ?thesis by (auto simp add: emitting_def)
  next
    case notA: False
    with False body have "s' = s\<lparr>parser := advance (parser s)\<rparr>"
      by (simp add: secondPass_body_def Let_def getCommandType_def)
    with False notA kept show ?thesis by (simp add: emitting_def)
  qed
qed

lemma secondPass_loop_lines:
  "secondPass_loop s = Inr t \<Longrightarrow> code_kept (code s) \<Longrightarrow>
   \<exists>new. outFile t = outFile s @ new \<and>
         list_all2 (\<lambda>q l. known_mnemonics q \<longrightarrow> binary_line l)
           (filter emitting (commands (parser s))) new"
proof (induction s rule: secondPass_loop.induct)
  case (1 s)
  show ?case
  proof (cases "hasMoreCommands (parser s)")
    case False
    then have "commands (parser s) = []" by (simp add: commands.simps [of "parser s"])
    moreover from False "1.prems"(1) have "t = s" by (simp add: secondPass_loop.simps [of s])
    ultimately show ?thesis by simp
  next
    case True
    let ?q = "advance (parser s)"
    let ?P = "\<lambda>q l. known_mnemonics q \<longrightarrow> binary_line l"
    from True "1.prems"(1) obtain s' where body: "secondPass_body s = Inr s'"
      and rest: "secondPass_loop s' = Inr t"
      by (auto simp add: secondPass_loop.simps [of s] split: sum.splits)
    from True have cmds: "commands (parser s) = ?q # commands ?q"
      by (simp add: commands.simps [of "parser s"])
    from body have ps': "parser s' = ?q" by (rule parser_secondPass_body)
    note step = secondPass_body_line [OF body "1.prems"(2)]
    from step have k': "code_kept (code s')" by (rule conjunct1)
    from "1.IH" [OF True body rest k'] obtain new where
      t: "outFile t = outFile s' @ new" and
      all: "list_all2 ?P (filter emitting (commands ?q)) new"
      unfolding ps' by blast
    show ?thesis
    proof (cases "emitting ?q")
      case True
      with step obtain l where l: "outFile s' = outFile s @ [l]" and b: "?P ?q l" by auto
      from b all have "list_all2 ?P (?q # filter emitting (commands ?q)) (l # new)" by simp
      with True have "list_all2 ?P (filter emitting (commands (parser s))) (l # new)"
        by (simp add: cmds)
      moreover from t l have "outFile t = outFile s @ (l # new)" by simp
      ultimately show ?thesis by blast
    next
      case False
      with step have "outFile s' = outFile s" by simp
      with t all False show ?thesis by (auto simp add: cmds)
    qed
  qed
qed

lemma code_firstPass_body: "code (firstPass_body s) = code s"
  by (simp add: firstPass_body_def Let_def)

lemma code_firstPass_loop: "code (firstPass_loop s) = code s"
proof (induction s rule: firstPass_loop.induct)
  case (1 s)
  then show ?case
    by (cases "hasMoreCommands (parser s)") (simp_all add: firstPass_loop.simps [of s] code_firstPass_body)
qed

lemma code_firstPass: "code (firstPass asm ct src) = code asm"
  by (simp add: firstPass_def firstPass_run_def Let_def code_firstPass_loop)

lemma code_kept_new: "code_kept Code_new"
  by (simp add: code_kept_def table_kept_refl)

lemma list_all2_known:
  "list_all2 (\<lambda>q l. A q \<longrightarrow> B l) qs ls \<Longrightarrow> \<forall>q \<in> set qs. A q \<Longrightarrow> \<forall>l \<in> set ls. B l"
  by (induction rule: list_all2_induct) simp_all

text \<open>
  C2, amended. After a run that ends without the exception of \<open>stoi\<close>, the lines written
  are, in order, one for each command that pass 2 has seen with type \<open>A_COMMAND\<close> or
  \<open>C_COMMAND\<close>; the line of an address command, and the line of a compute command whose
  three mnemonics are in the tables, is 16 characters long and made of \<open>0\<close> and \<open>1\<close>.
\<close>

theorem output_lines_binary:
  assumes run: "translate ct1 ct2 src = Inr out"
  shows "list_all2 (\<lambda>q l. known_mnemonics q \<longrightarrow> length l = 16 \<and> set l \<subseteq> {CHR ''0'', CHR ''1''})
           (filter emitting (commands (Parser_new ct2 src))) out"
proof -
  let ?asm = "firstPass Assembler_new ct1 src"
  let ?s = "\<lparr>symbolTable = symbolTable ?asm, code = code ?asm,
             parser = Parser_new ct2 src, outFile = []\<rparr>"
  from run obtain t where t: "secondPass_loop ?s = Inr t" and out: "out = outFile t"
    by (auto simp add: translate_def assemble_def secondPass_def split: sum.splits)
  have "code ?asm = Code_new" by (simp add: code_firstPass Assembler_new_def)
  then have kept: "code_kept (code ?s)" by (simp add: code_kept_new)
  from secondPass_loop_lines [OF t kept] out show ?thesis
    by (simp add: binary_line_def)
qed

theorem output_lines_binary_witness:
  "translate INVALID_COMMAND INVALID_COMMAND ''(LOOP)\<newline>@LOOP\<newline>0;JMP'' =
     Inr [''0000000000000000'', ''1110101010000111''] \<and>
   length ''0000000000000000'' = 16 \<and> set ''0000000000000000'' \<subseteq> {CHR ''0'', CHR ''1''} \<and>
   length ''1110101010000111'' = 16 \<and> set ''1110101010000111'' \<subseteq> {CHR ''0'', CHR ''1''}"
proof -
  let ?src = "''(LOOP)\<newline>@LOOP\<newline>0;JMP''"
  have run: "translate INVALID_COMMAND INVALID_COMMAND ?src =
     Inr [''0000000000000000'', ''1110101010000111'']"
    by code_simp
  have known: "\<forall>q \<in> set (filter emitting (commands (Parser_new INVALID_COMMAND ?src))).
                 known_mnemonics q"
    by code_simp
  have "\<forall>l \<in> set [''0000000000000000'', ''1110101010000111''].
          length l = 16 \<and> set l \<subseteq> {CHR ''0'', CHR ''1''}"
    using output_lines_binary [OF run] known by (rule list_all2_known)
  with run show ?thesis by simp
qed

text \<open>
  C2 as stated fails: the computation \<open>X\<close> of the line \<open>D=X\<close> is in no table, the lookup
  gives the empty string, and the line written has 9 characters.
\<close>

theorem unknown_mnemonic_counterexample:
  "translate INVALID_COMMAND INVALID_COMMAND ''D=X'' = Inr [''111010000''] \<and>
   length ''111010000'' \<noteq> (16::nat)"
  by code_simp


section \<open>Pass 2: the variables\<close>

text \<open>
  The operands that pass 2 hands to \<open>addVariable\<close>, taken from the commands the loop sees:
  the symbols of those of type \<open>A_COMMAND\<close> that do not start with a digit. These are
  parser states, not source lines: the list repeats the operand of an address command for
  every blank line after it, and it starts with the empty symbol of the parser that has not
  parsed anything yet when the source begins with blank or comment-only lines and the
  uninitialised command type is \<open>A_COMMAND\<close>. \<open>new_names bound xs\<close> lists the names of
  \<open>xs\<close> that are not bound, each once, in the order of their first occurrence.
\<close>

definition variable_operands :: "Parser list \<Rightarrow> string list" where
  "variable_operands qs =
     map symbol (filter (\<lambda>q. commandType q = A_COMMAND \<and> \<not> isdigit (front (symbol q))) qs)"

fun new_names :: "(string \<Rightarrow> bool) \<Rightarrow> string list \<Rightarrow> string list" where
  "new_names bound [] = []"
| "new_names bound (x # xs) =
     (if bound x then new_names bound xs else x # new_names (bound(x := True)) xs)"

lemma addVariable_bound:
  "contains st x \<Longrightarrow> addVariable st x = (the (table st x), st)"
  by (auto simp add: addVariable_def contains_def subscript_def)

lemma addVariable_unbound:
  "\<not> contains st x \<Longrightarrow>
   addVariable st x =
     (nextVariableAddress st,
      st\<lparr>table := (table st)(x \<mapsto> nextVariableAddress st),
         nextVariableAddress := nextVariableAddress st + 1\<rparr>)"
  by (simp add: addVariable_def contains_def subscript_def)

lemma addVariable_twice:
  "addVariable (snd (addVariable st x)) x = (fst (addVariable st x), snd (addVariable st x))"
  by (cases "contains st x")
     (simp_all add: addVariable_bound addVariable_unbound contains_def)

lemma new_names_fresh: "x \<in> set (new_names bound xs) \<Longrightarrow> \<not> bound x"
proof (induction xs arbitrary: bound)
  case Nil
  then show ?case by simp
next
  case (Cons a xs)
  show ?case
  proof (cases "bound a")
    case True
    with Cons.prems have "x \<in> set (new_names bound xs)" by simp
    then show ?thesis by (rule Cons.IH)
  next
    case False
    with Cons.prems have "x = a \<or> x \<in> set (new_names (bound(a := True)) xs)" by simp
    then show ?thesis
    proof
      assume "x = a"
      with False show ?thesis by simp
    next
      assume "x \<in> set (new_names (bound(a := True)) xs)"
      then have "\<not> (bound(a := True)) x" by (rule Cons.IH)
      then show ?thesis by (simp split: if_splits)
    qed
  qed
qed

lemma distinct_new_names: "distinct (new_names bound xs)"
proof (induction xs arbitrary: bound)
  case Nil
  show ?case by simp
next
  case (Cons x xs)
  have "x \<notin> set (new_names (bound(x := True)) xs)"
    using new_names_fresh [of x "bound(x := True)" xs] by auto
  with Cons show ?case by simp
qed

lemma symbolTable_secondPass_body:
  assumes "secondPass_body s = Inr s'"
  shows "symbolTable s' =
           (if commandType (advance (parser s)) = A_COMMAND \<and>
               \<not> isdigit (front (symbol (advance (parser s))))
            then snd (addVariable (symbolTable s) (symbol (advance (parser s))))
            else symbolTable s)"
  using assms
  by (auto simp add: secondPass_body_def Let_def getCommandType_def getSymbol_def
        split: if_splits sum.splits prod.splits)

lemma variable_operands_Cons:
  "variable_operands (q # qs) =
     (if commandType q = A_COMMAND \<and> \<not> isdigit (front (symbol q))
      then symbol q # variable_operands qs else variable_operands qs)"
  by (simp add: variable_operands_def)

lemma contains_after_new:
  "contains (st\<lparr>table := (table st)(x \<mapsto> a), nextVariableAddress := n\<rparr>) = (contains st)(x := True)"
  by (rule ext) (simp add: contains_def)

lemma secondPass_loop_variables:
  "secondPass_loop s = Inr t \<Longrightarrow>
   (\<forall>i < length (new_names (contains (symbolTable s)) (variable_operands (commands (parser s)))).
      table (symbolTable t)
        (new_names (contains (symbolTable s)) (variable_operands (commands (parser s))) ! i) =
      Some (nextVariableAddress (symbolTable s) + int i)) \<and>
   nextVariableAddress (symbolTable t) =
     nextVariableAddress (symbolTable s) +
     int (length (new_names (contains (symbolTable s)) (variable_operands (commands (parser s))))) \<and>
   (\<forall>k. contains (symbolTable s) k \<longrightarrow> table (symbolTable t) k = table (symbolTable s) k)"
proof (induction s rule: secondPass_loop.induct)
  case (1 s)
  show ?case
  proof (cases "hasMoreCommands (parser s)")
    case False
    with "1.prems" have "t = s" by (simp add: secondPass_loop.simps)
    moreover from False have "commands (parser s) = []" by (simp add: commands.simps)
    ultimately show ?thesis by (simp add: variable_operands_def)
  next
    case True
    let ?q = "advance (parser s)"
    let ?st = "symbolTable s"
    from True "1.prems" obtain s' where body: "secondPass_body s = Inr s'"
      and rest: "secondPass_loop s' = Inr t"
      by (auto simp add: secondPass_loop.simps [of s] split: sum.splits)
    from body have ps': "parser s' = ?q" by (rule parser_secondPass_body)
    from True have cmds: "commands (parser s) = ?q # commands ?q"
      by (simp add: commands.simps [of "parser s"])
    note IH = "1.IH" [OF True body rest, unfolded ps']
    let ?ops' = "variable_operands (commands ?q)"
    show ?thesis
    proof (cases "commandType ?q = A_COMMAND \<and> \<not> isdigit (front (symbol ?q)) \<and>
                  \<not> contains ?st (symbol ?q)")
      case new: True
      let ?x = "symbol ?q"
      let ?n0 = "nextVariableAddress ?st"
      from new body have st': "symbolTable s' =
          ?st\<lparr>table := (table ?st)(?x \<mapsto> ?n0), nextVariableAddress := ?n0 + 1\<rparr>"
        by (simp add: symbolTable_secondPass_body addVariable_unbound)
      then have c': "contains (symbolTable s') = (contains ?st)(?x := True)"
        by (simp only: contains_after_new)
      from st' have n': "nextVariableAddress (symbolTable s') = ?n0 + 1" by simp
      from st' have tb': "table (symbolTable s') = (table ?st)(?x \<mapsto> ?n0)" by simp
      let ?new' = "new_names ((contains ?st)(?x := True)) ?ops'"
      from new cmds have news: "new_names (contains ?st) (variable_operands (commands (parser s))) =
          ?x # ?new'"
        by (simp add: variable_operands_Cons)
      note IH' = IH [unfolded c' n']
      have ih1: "\<forall>i < length ?new'. table (symbolTable t) (?new' ! i) = Some (?n0 + 1 + int i)"
        using IH' by (rule conjunct1)
      have ih2: "nextVariableAddress (symbolTable t) = ?n0 + 1 + int (length ?new')"
        using IH' [THEN conjunct2] by (rule conjunct1)
      have ih3: "\<forall>k. ((contains ?st)(?x := True)) k \<longrightarrow>
                   table (symbolTable t) k = table (symbolTable s') k"
        using IH' [THEN conjunct2] by (rule conjunct2)
      have x: "table (symbolTable t) ?x = Some ?n0"
        using ih3 [rule_format, of ?x] by (simp add: tb')
      have nth: "\<forall>i < length (?x # ?new'). table (symbolTable t) ((?x # ?new') ! i) = Some (?n0 + int i)"
      proof (intro allI impI)
        fix i assume "i < length (?x # ?new')"
        then show "table (symbolTable t) ((?x # ?new') ! i) = Some (?n0 + int i)"
          using x ih1 by (cases i) simp_all
      qed
      have kept: "\<forall>k. contains ?st k \<longrightarrow> table (symbolTable t) k = table ?st k"
      proof (intro allI impI)
        fix k assume k: "contains ?st k"
        with new have "k \<noteq> ?x" by auto
        moreover from k have "((contains ?st)(?x := True)) k" by simp
        ultimately show "table (symbolTable t) k = table ?st k"
          using ih3 [rule_format, of k] by (simp add: tb')
      qed
      from ih2 have len: "nextVariableAddress (symbolTable t) = ?n0 + int (length (?x # ?new'))"
        by simp
      from nth len kept show ?thesis unfolding news by (intro conjI)
    next
      case old: False
      with body have st': "symbolTable s' = ?st"
        by (auto simp add: symbolTable_secondPass_body addVariable_bound)
      from old cmds have news: "new_names (contains ?st) (variable_operands (commands (parser s))) =
          new_names (contains ?st) ?ops'"
        by (auto simp add: variable_operands_Cons)
      from IH [unfolded st'] show ?thesis unfolding news .
    qed
  qed
qed


lemma next_firstPass_body:
  "nextVariableAddress (symbolTable (firstPass_body s)) = nextVariableAddress (symbolTable s)"
  by (simp add: firstPass_body_def Let_def addEntry_def)

lemma next_firstPass_loop:
  "nextVariableAddress (symbolTable (firstPass_loop s)) = nextVariableAddress (symbolTable s)"
proof (induction s rule: firstPass_loop.induct)
  case (1 s)
  then show ?case
    by (cases "hasMoreCommands (parser s)")
       (simp_all add: firstPass_loop.simps [of s] next_firstPass_body)
qed

lemma next_firstPass:
  "nextVariableAddress (symbolTable (firstPass Assembler_new ct src)) = 16"
  by (simp add: firstPass_def firstPass_run_def Let_def next_firstPass_loop Assembler_new_def
        SymbolTable_new_def VAR_ADDRESS_def)

text \<open>
  What pass 2 allocates. After a run that ends without exception, the new names among the
  operands above (those that the table after pass 1 does not contain), taken in the order
  of their first occurrence, are bound to 16, 17, 18, ...; the counter ends at 16 plus their
  number and the bindings of pass 1 are untouched. \<open>addVariable\<close> on a bound name returns
  its address and changes nothing, and a second call with the same name repeats the result
  of the first.
\<close>

lemma secondPass_allocation_order:
  assumes run: "assemble Assembler_new ct1 ct2 src = Inr t"
  shows "(let st1 = symbolTable (firstPass Assembler_new ct1 src);
              new = new_names (contains st1) (variable_operands (commands (Parser_new ct2 src)))
          in distinct new \<and>
             (\<forall>i < length new.
                \<not> contains st1 (new ! i) \<and> table (symbolTable t) (new ! i) = Some (16 + int i)) \<and>
             nextVariableAddress (symbolTable t) = 16 + int (length new) \<and>
             (\<forall>k. contains st1 k \<longrightarrow> table (symbolTable t) k = table st1 k)) \<and>
         (\<forall>st n. (contains st n \<longrightarrow> addVariable st n = (the (table st n), st)) \<and>
                 addVariable (snd (addVariable st n)) n =
                   (fst (addVariable st n), snd (addVariable st n)))"
proof -
  let ?asm = "firstPass Assembler_new ct1 src"
  let ?st1 = "symbolTable ?asm"
  let ?s = "\<lparr>symbolTable = ?st1, code = code ?asm, parser = Parser_new ct2 src, outFile = []\<rparr>"
  let ?new = "new_names (contains ?st1) (variable_operands (commands (Parser_new ct2 src)))"
  from run have t: "secondPass_loop ?s = Inr t"
    by (simp add: assemble_def secondPass_def)
  have sel: "symbolTable ?s = ?st1" "parser ?s = Parser_new ct2 src" by simp_all
  note loop = secondPass_loop_variables [OF t, unfolded sel next_firstPass]
  have fresh: "\<forall>i < length ?new. \<not> contains ?st1 (?new ! i)"
    using new_names_fresh [of _ "contains ?st1"] nth_mem by blast
  from loop fresh distinct_new_names [of "contains ?st1"]
  have first: "distinct ?new \<and>
      (\<forall>i < length ?new.
         \<not> contains ?st1 (?new ! i) \<and> table (symbolTable t) (?new ! i) = Some (16 + int i)) \<and>
      nextVariableAddress (symbolTable t) = 16 + int (length ?new) \<and>
      (\<forall>k. contains ?st1 k \<longrightarrow> table (symbolTable t) k = table ?st1 k)"
    by blast
  have second: "\<forall>st n. (contains st n \<longrightarrow> addVariable st n = (the (table st n), st)) \<and>
                 addVariable (snd (addVariable st n)) n =
                   (fst (addVariable st n), snd (addVariable st n))"
    using addVariable_bound addVariable_twice by blast
  from first second show ?thesis unfolding Let_def by (rule conjI)
qed

text \<open>
  On the source \<open>@foo\<close>, \<open>@foo\<close>, \<open>@bar\<close> the operands are the variables of the source:
  \<open>foo\<close> is bound to 16 and \<open>bar\<close> to 17.
\<close>

lemma foo_bar_scenario:
  "(case assemble Assembler_new ct1 ct2 ''@foo\<newline>@foo\<newline>@bar'' of
      Inl e \<Rightarrow> None
    | Inr t \<Rightarrow> Some (table (symbolTable t) ''foo'', table (symbolTable t) ''bar'', outFile t)) =
   Some (Some 16, Some 17,
         [''0000000000010000'', ''0000000000010000'', ''0000000000010001''])"
  by code_simp

text \<open>
  C4, at a failing input. The source \<open>// c\<close>, \<open>@foo\<close>, \<open>@bar\<close> has the two variables
  \<open>foo\<close> and \<open>bar\<close>, in that order of first occurrence. Its first line is a comment, so
  \<open>advance\<close> does not parse it, and pass 2 reads the command type that was never
  initialised. When that value is \<open>A_COMMAND\<close>, the empty symbol of the fresh parser goes
  to \<open>addVariable\<close> and takes address 16: \<open>foo\<close> is bound to 17 and \<open>bar\<close> to 18, and
  three lines are written for two commands.
\<close>

theorem leading_comment_shifts_variables:
  "(case assemble Assembler_new A_COMMAND A_COMMAND ''// c\<newline>@foo\<newline>@bar'' of
      Inl e \<Rightarrow> None
    | Inr t \<Rightarrow> Some (table (symbolTable t) [], table (symbolTable t) ''foo'',
                     table (symbolTable t) ''bar'', outFile t)) =
   Some (Some 16, Some 17, Some 18,
         [''0000000000010000'', ''0000000000010001'', ''0000000000010010''])"
  by code_simp

section \<open>The table only grows\<close>

lemma contains_foldl_apply_op:
  "contains st n \<Longrightarrow> contains (foldl apply_op st ops) n"
proof (induction ops arbitrary: st)
  case Nil
  then show ?case by simp
next
  case (Cons x ops)
  from Cons.prems have "contains (apply_op st x) n" by (rule contains_apply_op)
  then have "contains (foldl apply_op (apply_op st x) ops) n" by (rule Cons.IH)
  then show ?case by simp
qed

lemma contains_firstPass_body:
  "contains (symbolTable s) n \<Longrightarrow> contains (symbolTable (firstPass_body s)) n"
  by (simp add: firstPass_body_def Let_def contains_addEntry)

lemma contains_firstPass_loop:
  "contains (symbolTable s) n \<Longrightarrow> contains (symbolTable (firstPass_loop s)) n"
proof (induction s rule: firstPass_loop.induct)
  case (1 s)
  show ?case
  proof (cases "hasMoreCommands (parser s)")
    case True
    from "1.prems" have "contains (symbolTable (firstPass_body s)) n"
      by (rule contains_firstPass_body)
    then have "contains (symbolTable (firstPass_loop (firstPass_body s))) n"
      by (rule "1.IH" [OF True])
    with True show ?thesis by (simp add: firstPass_loop.simps [of s])
  next
    case False
    with "1.prems" show ?thesis by (simp add: firstPass_loop.simps [of s])
  qed
qed

lemma contains_secondPass_body:
  "secondPass_body s = Inr s' \<Longrightarrow> contains (symbolTable s) n \<Longrightarrow> contains (symbolTable s') n"
  by (simp add: symbolTable_secondPass_body contains_addVariable)

lemma contains_secondPass_loop:
  "secondPass_loop s = Inr t \<Longrightarrow> contains (symbolTable s) n \<Longrightarrow> contains (symbolTable t) n"
proof (induction s rule: secondPass_loop.induct)
  case (1 s)
  show ?case
  proof (cases "hasMoreCommands (parser s)")
    case True
    with "1.prems"(1) obtain s' where body: "secondPass_body s = Inr s'"
      and rest: "secondPass_loop s' = Inr t"
      by (auto simp add: secondPass_loop.simps [of s] split: sum.splits)
    from body "1.prems"(2) have "contains (symbolTable s') n" by (rule contains_secondPass_body)
    then show ?thesis by (rule "1.IH" [OF True body rest])
  next
    case False
    with "1.prems" show ?thesis by (simp add: secondPass_loop.simps [of s])
  qed
qed

lemma contains_assemble:
  assumes run: "assemble asm ct1 ct2 src = Inr t" and n: "contains (symbolTable asm) n"
  shows "contains (symbolTable t) n"
proof -
  let ?asm = "firstPass asm ct1 src"
  let ?s = "\<lparr>symbolTable = symbolTable ?asm, code = code ?asm,
             parser = Parser_new ct2 src, outFile = []\<rparr>"
  from n have "contains (symbolTable ?asm) n"
    by (simp add: firstPass_def firstPass_run_def Let_def contains_firstPass_loop)
  then have start: "contains (symbolTable ?s) n" by simp
  from run have "secondPass_loop ?s = Inr t" by (simp add: assemble_def secondPass_def)
  then show ?thesis using start by (rule contains_secondPass_loop)
qed

text \<open>
  C9. The symbol table only grows: a name that \<open>contains\<close> reports stays reported after
  every later sequence of \<open>bind\<close>, \<open>assignVariable\<close>, \<open>contains\<close> and \<open>resolve\<close> calls,
  and a name that the table of the assembler contains before a run is contained after it.
\<close>

theorem table_only_grows:
  "(contains st n \<longrightarrow> contains (foldl apply_op st ops) n) \<and>
   (contains (symbolTable asm) n \<and> assemble asm ct1 ct2 src = Inr t \<longrightarrow>
      contains (symbolTable t) n)"
  using contains_foldl_apply_op [of st n ops] contains_assemble [of asm ct1 ct2 src t n]
  by blast

theorem table_only_grows_witness:
  "contains SymbolTable_new ''KBD'' \<and>
   contains (foldl apply_op SymbolTable_new
     [Bind ''LOOP'' 4, AssignVariable ''i'', Resolve ''j'', Contains ''k'', Bind ''KBD'' 7]) ''KBD'' \<and>
   (\<exists>t. assemble Assembler_new INVALID_COMMAND INVALID_COMMAND ''@i\<newline>(KBD)'' = Inr t \<and>
        contains (symbolTable t) ''KBD'')"
proof -
  let ?run = "assemble Assembler_new INVALID_COMMAND INVALID_COMMAND ''@i\<newline>(KBD)''"
  have h: "contains SymbolTable_new ''KBD''" by code_simp
  then have h': "contains (symbolTable Assembler_new) ''KBD''" by (simp add: Assembler_new_def)
  have "(case ?run of Inl e \<Rightarrow> False | Inr t \<Rightarrow> True)" by code_simp
  then obtain t where t: "?run = Inr t" by (cases ?run) simp_all
  from h have ops: "contains (foldl apply_op SymbolTable_new
     [Bind ''LOOP'' 4, AssignVariable ''i'', Resolve ''j'', Contains ''k'', Bind ''KBD'' 7]) ''KBD''"
    using table_only_grows by blast
  from h' t have run: "contains (symbolTable t) ''KBD''"
    using table_only_grows by blast
  from h ops t run show ?thesis by blast
qed

section \<open>What the passes count\<close>

text \<open>
  Pass 2 writes one line for every command it sees whose type is \<open>A_COMMAND\<close> or
  \<open>C_COMMAND\<close>, and pass 1 increments the ROM counter for every command it sees whose type
  is neither \<open>L_COMMAND\<close> nor \<open>INVALID_COMMAND\<close>. The commands seen are those of
  \<open>commands\<close>: one per line read, blank lines included.
\<close>

lemma outFile_secondPass_body:
  "secondPass_body s = Inr s' \<Longrightarrow>
   length (outFile s') = length (outFile s) + (if emitting (advance (parser s)) then 1 else 0)"
  by (auto simp add: secondPass_body_def Let_def getCommandType_def emitting_def
        split: if_splits sum.splits prod.splits)

lemma length_outFile_secondPass_loop:
  "secondPass_loop s = Inr t \<Longrightarrow>
   length (outFile t) = length (outFile s) + length (filter emitting (commands (parser s)))"
proof (induction s rule: secondPass_loop.induct)
  case (1 s)
  show ?case
  proof (cases "hasMoreCommands (parser s)")
    case True
    with "1.prems" obtain s' where body: "secondPass_body s = Inr s'"
      and rest: "secondPass_loop s' = Inr t"
      by (auto simp add: secondPass_loop.simps [of s] split: sum.splits)
    from body have ps': "parser s' = advance (parser s)" by (rule parser_secondPass_body)
    from True have cmds: "commands (parser s) = advance (parser s) # commands (advance (parser s))"
      by (simp add: commands.simps [of "parser s"])
    from "1.IH" [OF True body rest] outFile_secondPass_body [OF body]
    show ?thesis by (simp add: cmds ps')
  next
    case False
    then have "commands (parser s) = []" by (simp add: commands.simps [of "parser s"])
    moreover from False "1.prems" have "t = s" by (simp add: secondPass_loop.simps [of s])
    ultimately show ?thesis by simp
  qed
qed

lemma romAddress_firstPass_body:
  "romAddress (firstPass_body s) = romAddress s + (if counted (advance (parser s)) then 1 else 0)"
  by (simp add: firstPass_body_def Let_def getCommandType_def counted_def)

lemma romAddress_firstPass_loop:
  "romAddress (firstPass_loop s) = romAddress s + int (length (filter counted (commands (parser s))))"
proof (induction s rule: firstPass_loop.induct)
  case (1 s)
  show ?case
  proof (cases "hasMoreCommands (parser s)")
    case True
    then have cmds: "commands (parser s) = advance (parser s) # commands (advance (parser s))"
      by (simp add: commands.simps [of "parser s"])
    from "1.IH" [OF True] True show ?thesis
      by (simp add: firstPass_loop.simps [of s] cmds romAddress_firstPass_body)
  next
    case False
    then show ?thesis
      by (simp add: firstPass_loop.simps [of s] commands.simps [of "parser s"])
  qed
qed

lemma lines_written:
  assumes "translate ct1 ct2 src = Inr out"
  shows "length out = length (filter emitting (commands (Parser_new ct2 src)))"
proof -
  let ?asm = "firstPass Assembler_new ct1 src"
  let ?s = "\<lparr>symbolTable = symbolTable ?asm, code = code ?asm,
             parser = Parser_new ct2 src, outFile = []\<rparr>"
  from assms obtain t where t: "secondPass_loop ?s = Inr t" and out: "out = outFile t"
    by (auto simp add: translate_def assemble_def secondPass_def split: sum.splits)
  from length_outFile_secondPass_loop [OF t] out show ?thesis by simp
qed

lemma rom_counter:
  "romAddress (firstPass_run asm ct1 src) = int (length (filter counted (commands (Parser_new ct1 src))))"
  by (simp add: firstPass_run_def romAddress_firstPass_loop)

end
